theory Spec2Isabelle
  imports Main "HOL-Library.Log_Nat"
begin

section \<open>Python values used by the script\<close>

text \<open>
  The script is one Python module with three functions: \<open>get_image_files\<close>,
  \<open>resize_image\<close> and \<open>create_video_from_images\<close>. Every exception the
  interpreter or the OpenCV binding can raise on the paths modelled here is a value
  of \<open>py_error\<close>; \<open>CvError\<close> stands for \<open>cv2.error\<close>.
\<close>

datatype py_error = IndexError | AttributeError | ZeroDivisionError | CvError

subsection \<open>Floats\<close>

text \<open>
  Python's \<open>float\<close> is IEEE 754 binary64. True division of two ints, the conversion
  of an int to a float and the product of two floats are each the exact rational
  result rounded to the nearest binary64 value, ties to even. \<open>fl64\<close> is that
  rounding on the rationals: \<open>binade x\<close> is the exponent \<open>e\<close> with
  \<open>2\<^sup>e \<le> x < 2\<^sup>e\<^sup>+\<^sup>1\<close>, the spacing of the binary64 values there is
  \<open>2\<^sup>e\<^sup>-\<^sup>5\<^sup>2\<close> (and \<open>2\<^sup>-\<^sup>1\<^sup>0\<^sup>7\<^sup>4\<close> in the subnormal range). Overflow to
  infinity is not modelled: no value of this script comes near \<open>2\<^sup>1\<^sup>0\<^sup>2\<^sup>4\<close>.
\<close>

definition round_half_even :: "rat \<Rightarrow> int" where
  "round_half_even q =
     (let f = \<lfloor>q\<rfloor>; d = q - of_int f
      in if d < 1 / 2 then f else if 1 / 2 < d then f + 1 else if even f then f else f + 1)"

definition binade :: "rat \<Rightarrow> int" where
  "binade x =
     (let e0 = bitlen (fst (quotient_of x)) - bitlen (snd (quotient_of x))
      in if 2 powi e0 \<le> x then e0 else e0 - 1)"

definition fl64 :: "rat \<Rightarrow> rat" where
  "fl64 x =
     (if x = 0 then 0
      else let a = \<bar>x\<bar>; u = 2 powi (max (binade a) (- 1022) - 52)
           in sgn x * of_int (round_half_even (a / u)) * u)"

text \<open>\<open>int(x)\<close> on a float truncates towards zero.\<close>

definition py_int :: "rat \<Rightarrow> int" where
  "py_int x = (if 0 \<le> x then \<lfloor>x\<rfloor> else \<lceil>x\<rceil>)"

subsection \<open>Paths (\<open>posixpath\<close>)\<close>

text \<open>
  \<open>os.path.join(a, b)\<close>: a second component that starts with the separator replaces
  the first; an empty first component, or one that ends with the separator, is
  followed by the second directly; otherwise a separator is put between them.
\<close>

definition path_join :: "string \<Rightarrow> string \<Rightarrow> string" where
  "path_join a b =
     (if b \<noteq> [] \<and> hd b = CHR ''/'' then b
      else if a = [] \<or> last a = CHR ''/'' then a @ b
      else a @ ''/'' @ b)"

text \<open>
  \<open>os.path.dirname(p)\<close>: the text up to and including the last separator, with the
  trailing separators then stripped unless the text consists of separators only.
\<close>

definition rstrip_sep :: "string \<Rightarrow> string" where
  "rstrip_sep s = rev (dropWhile (\<lambda>c. c = CHR ''/'') (rev s))"

definition dirname :: "string \<Rightarrow> string" where
  "dirname p =
     (let head = rev (dropWhile (\<lambda>c. c \<noteq> CHR ''/'') (rev p))
      in if head \<noteq> [] \<and> \<not> list_all (\<lambda>c. c = CHR ''/'') head then rstrip_sep head else head)"

subsection \<open>Strings\<close>

text \<open>
  \<open>str.lower\<close> and \<open>str.endswith\<close> on file names. A character is a byte here;
  \<open>lower\<close> changes the letters \<open>A\<close> to \<open>Z\<close> only, which is what decides a match
  with the four ASCII suffixes.
\<close>

definition lower_char :: "char \<Rightarrow> char" where
  "lower_char c =
     (let n = (of_char c :: nat) in if 65 \<le> n \<and> n \<le> 90 then char_of (n + 32) else c)"

definition lower :: "string \<Rightarrow> string" where
  "lower s = map lower_char s"

definition endswith :: "string \<Rightarrow> string \<Rightarrow> bool" where
  "endswith s suf \<longleftrightarrow> length suf \<le> length s \<and> drop (length s - length suf) s = suf"

section \<open>The file system and \<open>get_image_files\<close>\<close>

text \<open>
  A directory tree as \<open>os.walk\<close> sees it: a regular file with its content, a
  directory with its entries in the order \<open>os.scandir\<close> lists them, or a directory
  that cannot be listed. \<open>os.walk(top)\<close> yields \<open>(top, dirs, files)\<close> for the directory
  itself and then walks each sub-directory in turn, under the joined path; the error
  of listing something that is not a readable directory is swallowed (\<open>onerror\<close> is
  not given), so nothing is yielded for it. Symbolic links are not modelled.
\<close>

datatype 'c fs_node = File 'c | Dir "(string \<times> 'c fs_node) list" | Denied

fun is_dir :: "'c fs_node \<Rightarrow> bool" where
  "is_dir (File c) = False"
| "is_dir (Dir es) = True"
| "is_dir Denied = True"

definition dir_names :: "(string \<times> 'c fs_node) list \<Rightarrow> string list" where
  "dir_names es = map fst (filter (\<lambda>e. is_dir (snd e)) es)"

definition file_names :: "(string \<times> 'c fs_node) list \<Rightarrow> string list" where
  "file_names es = map fst (filter (\<lambda>e. \<not> is_dir (snd e)) es)"

fun os_walk :: "string \<Rightarrow> 'c fs_node \<Rightarrow> (string \<times> string list \<times> string list) list"
  and os_walk_dirs :: "string \<Rightarrow> (string \<times> 'c fs_node) list \<Rightarrow> (string \<times> string list \<times> string list) list"
where
  "os_walk dirpath (File c) = []"
| "os_walk dirpath Denied = []"
| "os_walk dirpath (Dir es) = (dirpath, dir_names es, file_names es) # os_walk_dirs dirpath es"
| "os_walk_dirs dirpath [] = []"
| "os_walk_dirs dirpath (e # es) =
     (if is_dir (snd e) then os_walk (path_join dirpath (fst e)) (snd e) else []) @ os_walk_dirs dirpath es"

text \<open>A file system maps the path handed to the script to the tree found there, if any.\<close>

type_synonym 'c filesystem = "string \<Rightarrow> 'c fs_node option"

definition image_suffixes :: "string list" where
  "image_suffixes = [''.png'', ''.jpg'', ''.jpeg'', ''.gif'']"

definition is_image_name :: "string \<Rightarrow> bool" where
  "is_image_name file \<longleftrightarrow> list_ex (endswith (lower file)) image_suffixes"

definition get_image_files :: "'c filesystem \<Rightarrow> string \<Rightarrow> string list" where
  "get_image_files fs path =
     (case fs path of
        None \<Rightarrow> []
      | Some node \<Rightarrow>
          concat (map (\<lambda>(root, dirs, files). map (path_join root) (filter is_image_name files))
                      (os_walk path node)))"

text \<open>
  The words of the specification, for comparison with the code: a file lies under the
  root when a chain of directory names leads from the root to a directory that lists
  it; its extension is the text after the last dot of its name.
\<close>

inductive has_file :: "'c fs_node \<Rightarrow> string list \<Rightarrow> string \<Rightarrow> bool" where
  here: "(n, File c) \<in> set es \<Longrightarrow> has_file (Dir es) [] n"
| below: "(d, sub) \<in> set es \<Longrightarrow> has_file sub ds n \<Longrightarrow> has_file (Dir es) (d # ds) n"

definition extension :: "string \<Rightarrow> string option" where
  "extension name =
     (if CHR ''.'' \<in> set name then Some (rev (takeWhile (\<lambda>c. c \<noteq> CHR ''.'') (rev name))) else None)"

definition has_image_extension :: "string \<Rightarrow> bool" where
  "has_image_extension name \<longleftrightarrow>
     (case extension name of
        None \<Rightarrow> False
      | Some e \<Rightarrow> lower e \<in> {''png'', ''jpg'', ''jpeg'', ''gif''})"

text \<open>The paths that the two loops of \<open>get_image_files\<close> collect from a walk, as a set.\<close>

definition found :: "(string \<times> string list \<times> string list) list \<Rightarrow> string set" where
  "found walk =
     set (concat (map (\<lambda>(root, dirs, files). map (path_join root) (filter is_image_name files)) walk))"

section \<open>Images and the two OpenCV calls of \<open>resize_image\<close>\<close>

text \<open>
  A decoded image is a numpy array of shape \<open>(rows, cols, 3)\<close>: \<open>shape[0]\<close> is the
  height and \<open>shape[1]\<close> the width. The pixel type is left open; \<open>0\<close> is black.
\<close>

record 'p image =
  rows :: int
  cols :: int
  px :: "int \<Rightarrow> int \<Rightarrow> 'p"

text \<open>
  \<open>cv2.resize(src, (w, h))\<close> raises \<open>cv2.error\<close> when the source or the requested
  size is empty (a width or height below one); otherwise the result has exactly the
  requested size. How its pixels are interpolated from the source is a parameter.
\<close>

type_synonym 'p interpolation = "'p image \<Rightarrow> int \<Rightarrow> int \<Rightarrow> int \<Rightarrow> int \<Rightarrow> 'p"

definition cv2_resize :: "'p interpolation \<Rightarrow> 'p image \<Rightarrow> int \<times> int \<Rightarrow> py_error + 'p image" where
  "cv2_resize interp src dsize =
     (if rows src \<le> 0 \<or> cols src \<le> 0 then Inl CvError
      else if fst dsize \<le> 0 \<or> snd dsize \<le> 0 then Inl CvError
      else Inr \<lparr>rows = snd dsize, cols = fst dsize, px = interp src (fst dsize) (snd dsize)\<rparr>)"

text \<open>
  \<open>cv2.copyMakeBorder(src, top, bottom, left, right, cv2.BORDER_CONSTANT)\<close> with the
  border value left at its default, which is zero: a negative border raises
  \<open>cv2.error\<close>; otherwise the source is copied at offset \<open>(top, left)\<close> into an image
  that is \<open>top + bottom\<close> rows taller and \<open>left + right\<close> columns wider.
\<close>

definition cv2_copyMakeBorder ::
  "('p::zero) image \<Rightarrow> int \<Rightarrow> int \<Rightarrow> int \<Rightarrow> int \<Rightarrow> py_error + 'p image" where
  "cv2_copyMakeBorder src btop bbottom bleft bright =
     (if btop < 0 \<or> bbottom < 0 \<or> bleft < 0 \<or> bright < 0 then Inl CvError
      else Inr \<lparr>rows = rows src + btop + bbottom,
                cols = cols src + bleft + bright,
                px = (\<lambda>r c. if btop \<le> r \<and> r < btop + rows src \<and> bleft \<le> c \<and> c < bleft + cols src
                             then px src (r - btop) (c - bleft) else 0)\<rparr>)"

section \<open>\<open>resize_image\<close>\<close>

text \<open>The local variables of \<open>resize_image\<close>, each as the source computes it.\<close>

definition aspect_ratio :: "'p image \<Rightarrow> int \<Rightarrow> int \<Rightarrow> rat" where
  "aspect_ratio img width height =
     min (fl64 (of_int width / of_int (cols img))) (fl64 (of_int height / of_int (rows img)))"

definition new_width :: "'p image \<Rightarrow> int \<Rightarrow> int \<Rightarrow> int" where
  "new_width img width height =
     py_int (fl64 (fl64 (of_int (cols img)) * aspect_ratio img width height))"

definition new_height :: "'p image \<Rightarrow> int \<Rightarrow> int \<Rightarrow> int" where
  "new_height img width height =
     py_int (fl64 (fl64 (of_int (rows img)) * aspect_ratio img width height))"

definition padding_width :: "'p image \<Rightarrow> int \<Rightarrow> int \<Rightarrow> int" where
  "padding_width img width height =
     py_int (fl64 (of_int (width - new_width img width height) / 2))"

definition padding_height :: "'p image \<Rightarrow> int \<Rightarrow> int \<Rightarrow> int" where
  "padding_height img width height =
     py_int (fl64 (of_int (height - new_height img width height) / 2))"

text \<open>
  \<open>cv2.imread\<close> returns \<open>None\<close> for a file it cannot decode, so the argument is an
  optional image; reading \<open>.shape\<close> of \<open>None\<close> raises \<open>AttributeError\<close>. The two
  divisions are evaluated first, left to right.
\<close>

definition resize_image ::
  "'p interpolation \<Rightarrow> ('p::zero) image option \<Rightarrow> int \<Rightarrow> int \<Rightarrow> py_error + 'p image" where
  "resize_image interp im width height =
     (case im of
        None \<Rightarrow> Inl AttributeError
      | Some img \<Rightarrow>
          if cols img = 0 \<or> rows img = 0 then Inl ZeroDivisionError
          else
            (case cv2_resize interp img (new_width img width height, new_height img width height) of
               Inl e \<Rightarrow> Inl e
             | Inr resized_image \<Rightarrow>
                 cv2_copyMakeBorder resized_image
                   (padding_height img width height) (padding_height img width height)
                   (padding_width img width height) (padding_width img width height)))"

text \<open>
  The sizes the arithmetic below is proved for. \<open>cv2.imread\<close> refuses an image wider
  or taller than \<open>2\<^sup>2\<^sup>0\<close> pixels, and the only call of \<open>resize_image\<close> asks for
  \<open>2560 \<times> 1440\<close>.
\<close>

definition size_ok :: "int \<Rightarrow> bool" where
  "size_ok n \<longleftrightarrow> 1 \<le> n \<and> n \<le> 2 ^ 20"

section \<open>\<open>create_video_from_images\<close>\<close>

text \<open>
  What the run does to the outside world, in order: decoding a file, opening the
  video writer on a path (which creates the output file), handing a frame to the
  writer, releasing the writer. The progress bar and the final message are console
  output and are left out.
\<close>

datatype 'p event =
    Imread string
  | Open string string int "int \<times> int"
  | Write "'p image"
  | Release

definition output_width :: int where "output_width = 2560"
definition output_height :: int where "output_height = 1440"
definition output_fps :: int where "output_fps = 60"

text \<open>The path of the output file (the first statements of the function).\<close>

definition output_path :: "string option \<Rightarrow> string \<Rightarrow> string option \<Rightarrow> string" where
  "output_path file_name path destination_folder =
     (let file_name = (case file_name of None \<Rightarrow> ''none'' | Some n \<Rightarrow> n);
          destination_folder = (case destination_folder of None \<Rightarrow> dirname path | Some d \<Rightarrow> d)
      in path_join destination_folder (file_name @ ''.mp4''))"

text \<open>
  The \<open>for\<close> loop over the discovered files: the events it emits and the exception
  that ended it, if any.
\<close>

fun write_frames ::
  "(string \<Rightarrow> ('p::zero) image option) \<Rightarrow> 'p interpolation \<Rightarrow> string list
     \<Rightarrow> 'p event list \<times> py_error option" where
  "write_frames imread interp [] = ([], None)"
| "write_frames imread interp (image_file # rest) =
     (case resize_image interp (imread image_file) output_width output_height of
        Inl e \<Rightarrow> ([Imread image_file], Some e)
      | Inr resized_image \<Rightarrow>
          (case write_frames imread interp rest of
             (evs, r) \<Rightarrow> (Imread image_file # Write resized_image # evs, r)))"

definition create_video_from_images ::
  "(string \<Rightarrow> ('p::zero) image option) \<Rightarrow> 'p interpolation \<Rightarrow> 'c filesystem
     \<Rightarrow> string option \<Rightarrow> string \<Rightarrow> string option \<Rightarrow> 'p event list \<times> py_error option" where
  "create_video_from_images imread interp fs file_name path destination_folder =
     (let image_files = get_image_files fs path
      in case image_files of
           [] \<Rightarrow> ([], Some IndexError)
         | first # _ \<Rightarrow>
             (case imread first of
                None \<Rightarrow> ([Imread first], Some AttributeError)
              | Some first_image \<Rightarrow>
                  (case write_frames imread interp image_files of
                     (evs, Some e) \<Rightarrow>
                       (Imread first
                          # Open (output_path file_name path destination_folder) ''mp4v'' output_fps
                              (output_width, output_height)
                          # evs, Some e)
                   | (evs, None) \<Rightarrow>
                       (Imread first
                          # Open (output_path file_name path destination_folder) ''mp4v'' output_fps
                              (output_width, output_height)
                          # evs @ [Release], None))))"



section \<open>Reading a trace\<close>

text \<open>
  What a trace says about the video: the frames handed to the writer in order, the
  files decoded in order, how often the writer was released, and the paths it was
  opened on.
\<close>

fun frames_written :: "'p event list \<Rightarrow> 'p image list" where
  "frames_written [] = []"
| "frames_written (Write frame # evs) = frame # frames_written evs"
| "frames_written (ev # evs) = frames_written evs"

fun files_read :: "'p event list \<Rightarrow> string list" where
  "files_read [] = []"
| "files_read (Imread f # evs) = f # files_read evs"
| "files_read (ev # evs) = files_read evs"

fun releases :: "'p event list \<Rightarrow> nat" where
  "releases [] = 0"
| "releases (Release # evs) = Suc (releases evs)"
| "releases (ev # evs) = releases evs"

fun opens :: "'p event list \<Rightarrow> string list" where
  "opens [] = []"
| "opens (Open p c f s # evs) = p # opens evs"
| "opens (ev # evs) = opens evs"

text \<open>The events of a loop in which every file yields a frame.\<close>

fun frame_events :: "string list \<Rightarrow> 'p image list \<Rightarrow> 'p event list" where
  "frame_events (f # fs) (frame # frames) = Imread f # Write frame # frame_events fs frames"
| "frame_events fs frames = []"

text \<open>
  \<open>cv2.VideoWriter.write(frame)\<close> encodes a frame only when its size is the frame
  size the writer was opened with; a frame of another size is skipped, and the script
  does not look at the outcome of the call. \<open>encode\<close> replays a trace against that
  rule, carrying the frame size of the open writer; \<open>video_frames\<close> are the frames
  the produced file holds, in order.
\<close>

fun encode :: "(int \<times> int) option \<Rightarrow> 'p event list \<Rightarrow> 'p image list" where
  "encode sz [] = []"
| "encode sz (Open p c f s # evs) = encode (Some s) evs"
| "encode sz (Write frame # evs) =
     (case sz of
        None \<Rightarrow> encode sz evs
      | Some (w, h) \<Rightarrow>
          if cols frame = w \<and> rows frame = h then frame # encode sz evs else encode sz evs)"
| "encode sz (Release # evs) = encode None evs"
| "encode sz (Imread f # evs) = encode sz evs"

definition video_frames :: "'p event list \<Rightarrow> 'p image list" where
  "video_frames trace = encode None trace"

section \<open>Concrete inputs for the examples\<close>

definition gray_image :: "int \<Rightarrow> int \<Rightarrow> nat image" where
  "gray_image w h = \<lparr>rows = h, cols = w, px = (\<lambda>r c. 128)\<rparr>"

text \<open>Nearest-neighbour sampling, as one instance of the interpolation parameter.\<close>

definition nearest :: "nat interpolation" where
  "nearest src w h r c = px src ((r * rows src) div h) ((c * cols src) div w)"

text \<open>
  A directory tree with three image files, one of them in a sub-directory, next to
  files that are no images and a directory that cannot be listed; and what
  \<open>cv2.imread\<close> decodes from each path.
\<close>

definition sample_fs :: "unit filesystem" where
  "sample_fs p =
     (if p = ''in''
      then Some (Dir [(''a.png'', File ()), (''notes.txt'', File ()),
                      (''sub'', Dir [(''b.JPG'', File ()), (''c.gif.bak'', File ())]),
                      (''locked'', Denied), (''z.jpeg'', File ())])
      else if p = ''empty'' then Some (Dir [(''readme.md'', File ())])
      else if p = ''locked'' then Some Denied
      else None)"

definition sample_imread :: "string \<Rightarrow> nat image option" where
  "sample_imread p =
     (if p = ''in/a.png'' then Some (gray_image 800 600)
      else if p = ''in/sub/b.JPG'' then Some (gray_image 640 480)
      else if p = ''in/z.jpeg'' then Some (gray_image 1920 1080)
      else None)"

text \<open>The same files, with \<open>z.jpeg\<close> corrupted.\<close>

definition corrupt_imread :: "string \<Rightarrow> nat image option" where
  "corrupt_imread p = (if p = ''in/z.jpeg'' then None else sample_imread p)"

text \<open>A folder that holds a single image, 1000 pixels wide and 563 high.\<close>

definition lone_fs :: "unit filesystem" where
  "lone_fs p = (if p = ''shots'' then Some (Dir [(''p.png'', File ())]) else None)"

definition lone_imread :: "string \<Rightarrow> nat image option" where
  "lone_imread p = (if p = ''shots/p.png'' then Some (gray_image 1000 563) else None)"

section \<open>Rounding to binary64: error bounds and exact cases\<close>

lemma round_half_even_err: "\<bar>of_int (round_half_even q) - q\<bar> \<le> 1 / 2"
proof -
  have "of_int \<lfloor>q\<rfloor> \<le> q" "q < of_int \<lfloor>q\<rfloor> + 1" by linarith+
  then show ?thesis
    by (auto simp: round_half_even_def Let_def abs_le_iff)
qed

lemma round_half_even_of_int: "round_half_even (of_int k) = k"
  by (simp add: round_half_even_def)

lemma pow2_bitlen:
  assumes "0 < (p::int)"
  shows "(2::rat) powi (bitlen p - 1) \<le> of_int p" "of_int p < (2::rat) powi bitlen p"
proof -
  from bitlen_bounds[OF assms] have a: "2 ^ nat (bitlen p - 1) \<le> p" and b: "p < 2 ^ nat (bitlen p)"
    by auto
  have ge1: "1 \<le> bitlen p" using assms by (auto simp: bitlen_alt_def)
  have "(of_int (2 ^ nat (bitlen p - 1)) :: rat) \<le> of_int p" using a by (rule of_int_le_iff[THEN iffD2])
  then show "(2::rat) powi (bitlen p - 1) \<le> of_int p"
    using ge1 by (simp add: power_int_def)
  have "(of_int p :: rat) < of_int (2 ^ nat (bitlen p))" using b by (rule of_int_less_iff[THEN iffD2])
  then show "of_int p < (2::rat) powi bitlen p"
    using ge1 by (simp add: power_int_def)
qed

lemma binade_bounds:
  assumes "0 < x"
  shows "2 powi binade x \<le> x" and "x < 2 powi (binade x + 1)"
proof -
  obtain p q where pq: "quotient_of x = (p, q)" by (cases "quotient_of x")
  have q: "0 < q" using pq by (rule quotient_of_denom_pos)
  have x: "x = of_int p / of_int q" using pq by (rule quotient_of_div)
  have p: "0 < p" using assms q x by (simp add: zero_less_divide_iff)
  define e0 where "e0 = bitlen p - bitlen q"
  have qr: "(0::rat) < of_int q" using q by simp
  have lo: "2 powi (e0 - 1) \<le> x"
  proof -
    have "(2::rat) powi (e0 - 1) * of_int q \<le> 2 powi (e0 - 1) * 2 powi bitlen q"
      using pow2_bitlen(2)[OF q] by (intro mult_left_mono) auto
    also have "\<dots> = 2 powi (bitlen p - 1)"
      by (simp add: e0_def power_int_add[symmetric])
    also have "\<dots> \<le> of_int p" using pow2_bitlen(1)[OF p] .
    finally show ?thesis using qr by (simp add: x pos_le_divide_eq)
  qed
  have hi: "x < 2 powi (e0 + 1)"
  proof -
    have "of_int p < (2::rat) powi bitlen p" using pow2_bitlen(2)[OF p] .
    also have "\<dots> = 2 powi (e0 + 1) * 2 powi (bitlen q - 1)"
      by (simp add: e0_def power_int_add[symmetric])
    also have "\<dots> \<le> 2 powi (e0 + 1) * of_int q"
      using pow2_bitlen(1)[OF q] by (intro mult_left_mono) auto
    finally show ?thesis using qr by (simp add: x pos_divide_less_eq)
  qed
  have b: "binade x = (if 2 powi e0 \<le> x then e0 else e0 - 1)"
    by (simp add: binade_def pq e0_def Let_def)
  show "2 powi binade x \<le> x" using lo by (simp add: b)
  show "x < 2 powi (binade x + 1)" using hi by (auto simp: b not_le)
qed


lemma pow2_less_cancel:
  assumes "(2::rat) powi a < 2 powi b"
  shows "a < b"
proof (rule ccontr)
  assume "\<not> a < b"
  then have "b \<le> a" by simp
  then have "(2::rat) powi b \<le> 2 powi a" by (rule power_int_increasing) simp
  with assms show False by simp
qed

lemma div_pow2_neg: "(x::rat) / 2 powi (- int k) = x * 2 ^ k"
  by (simp add: power_int_minus field_simps)

lemma binade_ge:
  assumes "2 powi k \<le> x"
  shows "k \<le> binade x"
proof -
  have "(0::rat) < 2 powi k" by simp
  with assms have x: "0 < x" by linarith
  have "(2::rat) powi k < 2 powi (binade x + 1)"
    using assms binade_bounds(2)[OF x] by (rule le_less_trans)
  then have "k < binade x + 1" by (rule pow2_less_cancel)
  then show ?thesis by simp
qed

lemma binade_less:
  assumes "0 < x" "x < 2 powi k"
  shows "binade x < k"
proof -
  have "(2::rat) powi binade x < 2 powi k"
    using binade_bounds(1)[OF assms(1)] assms(2) by (rule le_less_trans)
  then show ?thesis by (rule pow2_less_cancel)
qed

lemma fl64_pos:
  assumes "0 < x" "- 1022 \<le> binade x"
  shows "fl64 x = of_int (round_half_even (x / 2 powi (binade x - 52))) * 2 powi (binade x - 52)"
  using assms by (simp add: fl64_def Let_def max_def)

lemma fl64_abs_err:
  assumes "0 < x" "- 1022 \<le> binade x"
  shows "\<bar>fl64 x - x\<bar> \<le> 2 powi (binade x - 53)"
proof -
  define u :: rat where "u = 2 powi (binade x - 52)"
  have u: "0 < u" by (simp add: u_def)
  have "fl64 x - x = (of_int (round_half_even (x / u)) - x / u) * u"
    using u by (simp add: fl64_pos[OF assms] u_def[symmetric] algebra_simps)
  then have "\<bar>fl64 x - x\<bar> = \<bar>of_int (round_half_even (x / u)) - x / u\<bar> * u"
    using u by (simp add: abs_mult)
  also have "\<dots> \<le> 1 / 2 * u"
    using round_half_even_err[of "x / u"] u by (intro mult_right_mono) auto
  also have "\<dots> = 2 powi (binade x - 53)"
    by (simp add: u_def power_int_diff)
  finally show ?thesis .
qed

lemma fl64_rel_err:
  assumes "2 powi (- 1022) \<le> x"
  shows "\<bar>fl64 x - x\<bar> \<le> x / 2 ^ 53"
proof -
  have "(0::rat) < 2 powi (- 1022)" by simp
  with assms have x: "0 < x" by linarith
  have e: "- 1022 \<le> binade x" using assms by (rule binade_ge)
  have "\<bar>fl64 x - x\<bar> \<le> 2 powi (binade x - 53)" using x e by (rule fl64_abs_err)
  also have "\<dots> = 2 powi binade x / 2 ^ 53"
    by (simp add: power_int_diff)
  also have "\<dots> \<le> x / 2 ^ 53"
    using binade_bounds(1)[OF x] by (simp add: divide_right_mono)
  finally show ?thesis .
qed

lemma fl64_exact:
  assumes "0 < x" "- 1022 \<le> binade x" "x / 2 powi (binade x - 52) = of_int m"
  shows "fl64 x = x"
proof -
  have "fl64 x = of_int m * 2 powi (binade x - 52)"
    by (simp add: fl64_pos[OF assms(1,2)] assms(3) round_half_even_of_int)
  also have "\<dots> = x" using assms(3)[symmetric] by simp
  finally show ?thesis .
qed

lemma fl64_of_int:
  assumes "0 < n" "n < 2 ^ 53"
  shows "fl64 (of_int n) = of_int n"
proof -
  have x: "(0::rat) < of_int n" using assms by simp
  have "(1::rat) \<le> of_int n" using assms by simp
  then have "(2::rat) powi 0 \<le> of_int n" by simp
  then have lo: "0 \<le> binade (of_int n)" by (rule binade_ge)
  have "(of_int n :: rat) < of_int (2 ^ 53)" using assms(2) by (rule of_int_less_iff[THEN iffD2])
  then have "(of_int n :: rat) < 2 powi 53" by simp
  then have hi: "binade (of_int n) < 53" using x by (intro binade_less) auto
  define k where "k = nat (52 - binade (of_int n :: rat))"
  have k: "binade (of_int n :: rat) - 52 = - int k" using hi by (simp add: k_def)
  have "(of_int n :: rat) / 2 powi (binade (of_int n) - 52) = of_int (n * 2 ^ k)"
    unfolding k div_pow2_neg by simp
  moreover have "- 1022 \<le> binade (of_int n :: rat)" using lo by simp
  ultimately show ?thesis using x by (intro fl64_exact[where m = "n * 2 ^ k"])
qed

lemma fl64_half:
  assumes "0 < n" "n < 2 ^ 53"
  shows "fl64 (of_int n / 2) = of_int n / 2"
proof -
  have x: "(0::rat) < of_int n / 2" using assms by simp
  have "(1::rat) \<le> of_int n" using assms by simp
  then have "(2::rat) powi (- 1) \<le> of_int n / 2" by (simp add: power_int_minus)
  then have lo: "- 1 \<le> binade (of_int n / 2)" by (rule binade_ge)
  have "(of_int n :: rat) < of_int (2 ^ 53)" using assms(2) by (rule of_int_less_iff[THEN iffD2])
  then have "(of_int n :: rat) / 2 < 2 powi 52" by simp
  then have hi: "binade (of_int n / 2) < 52" using x by (intro binade_less) auto
  define k where "k = nat (51 - binade (of_int n / 2 :: rat))"
  have k: "binade (of_int n / 2 :: rat) - 52 = - int (Suc k)" using hi by (simp add: k_def)
  have "(of_int n / 2 :: rat) / 2 powi (binade (of_int n / 2) - 52) = of_int (n * 2 ^ k)"
    unfolding k div_pow2_neg by simp
  moreover have "- 1022 \<le> binade (of_int n / 2 :: rat)" using lo by simp
  ultimately show ?thesis using x by (intro fl64_exact[where m = "n * 2 ^ k"])
qed

lemma fl64_upper:
  assumes "2 powi (- 1022) \<le> x"
  shows "fl64 x \<le> x + x / 2 ^ 53"
  using fl64_rel_err[OF assms] by linarith

lemma fl64_lower:
  assumes "2 powi (- 1022) \<le> x"
  shows "x - x / 2 ^ 53 \<le> fl64 x"
  using fl64_rel_err[OF assms] by linarith

lemma quot_ge:
  assumes "size_ok t" "size_ok s"
  shows "(1 / 2 ^ 20 :: rat) \<le> of_int t / of_int s"
proof -
  have s: "(0::rat) < of_int s" "(of_int s :: rat) \<le> 2 ^ 20"
    using assms(2) unfolding size_ok_def by (simp_all add: of_int_le_iff[of s "2 ^ 20", where 'a = rat, simplified])
  have t: "(1::rat) \<le> of_int t" using assms(1) unfolding size_ok_def by simp
  have "(1::rat) / 2 ^ 20 \<le> 1 / of_int s" using s by (simp add: field_simps)
  also have "\<dots> \<le> of_int t / of_int s" using s t by (simp add: divide_right_mono)
  finally show ?thesis .
qed


lemma pow2_m1022_small: "(2::rat) powi (- 1022) \<le> 1 / 2 ^ 21"
proof -
  have "(2::rat) powi (- 1022) \<le> 2 powi (- 21)" by (rule power_int_increasing) simp_all
  also have "(2::rat) powi (- 21) = 1 / 2 ^ 21" by (simp add: power_int_minus_divide)
  finally show ?thesis .
qed

lemma of_int_size_ok:
  assumes "size_ok s"
  shows "(1::rat) \<le> of_int s" "(of_int s :: rat) \<le> 2 ^ 20"
proof -
  show "(1::rat) \<le> of_int s" using assms unfolding size_ok_def by simp
  have "(of_int s :: rat) \<le> of_int (2 ^ 20)" using assms unfolding size_ok_def by (intro of_int_le_iff[THEN iffD2]) simp
  then show "(of_int s :: rat) \<le> 2 ^ 20" by simp
qed

lemma fl64_size_ok:
  assumes "size_ok s"
  shows "fl64 (of_int s) = of_int s"
proof -
  have "0 < s" "s < 2 ^ 53" using assms unfolding size_ok_def by simp_all
  then show ?thesis by (rule fl64_of_int)
qed

lemma fl64_quot_bounds:
  assumes "size_ok t" "size_ok s"
  shows "1 / 2 ^ 21 \<le> fl64 (of_int t / of_int s)"
    and "fl64 (of_int t / of_int s) \<le> of_int t / of_int s + of_int t / of_int s / 2 ^ 53"
proof -
  let ?q = "of_int t / of_int s :: rat"
  have q: "1 / 2 ^ 20 \<le> ?q" using assms by (rule quot_ge)
  have "(1::rat) / 2 ^ 21 \<le> 1 / 2 ^ 20" by simp
  then have n: "2 powi (- 1022) \<le> ?q" using pow2_m1022_small q by (meson order_trans)
  show "fl64 ?q \<le> ?q + ?q / 2 ^ 53" using n by (rule fl64_upper)
  have "?q - ?q / 2 ^ 53 \<le> fl64 ?q" using n by (rule fl64_lower)
  moreover have "(1::rat) / 2 ^ 21 \<le> ?q - ?q / 2 ^ 53"
  proof -
    have "(1::rat) / 2 ^ 21 \<le> 1 / 2 ^ 20 * (1 - 1 / 2 ^ 53)" by simp
    also have "\<dots> \<le> ?q * (1 - 1 / 2 ^ 53)" using q by (intro mult_right_mono) simp_all
    also have "\<dots> = ?q - ?q / 2 ^ 53" by (simp add: right_diff_distrib)
    finally show ?thesis .
  qed
  ultimately show "1 / 2 ^ 21 \<le> fl64 ?q" by (rule order_trans[rotated])
qed

lemma prod_bounds:
  assumes t: "size_ok t" and s: "size_ok s"
    and a_lo: "1 / 2 ^ 21 \<le> a" and a_hi: "a \<le> fl64 (of_int t / of_int s)"
  shows "0 \<le> of_int s * a"
    and "of_int s * a \<le> of_int t + of_int t / 2 ^ 53"
    and "of_int s * a \<le> 2 ^ 20 + 2 ^ 20 / 2 ^ 53"
    and "fl64 (of_int s * a) \<le> of_int s * a + of_int s * a / 2 ^ 53"
    and "of_int s * a - of_int s * a / 2 ^ 53 \<le> fl64 (of_int s * a)"
    and "0 \<le> fl64 (of_int s * a)"
proof -
  let ?p = "of_int s * a :: rat"
  note sr = of_int_size_ok[OF s] and tr = of_int_size_ok[OF t]
  have s0: "(0::rat) < of_int s" using sr by linarith
  have "1 * (1 / 2 ^ 21) \<le> ?p" using sr a_lo by (intro mult_mono) simp_all
  then have p_lo: "1 / 2 ^ 21 \<le> ?p" by simp
  then have n: "2 powi (- 1022) \<le> ?p" using pow2_m1022_small by (meson order_trans)
  have "a \<le> of_int t / of_int s + of_int t / of_int s / 2 ^ 53"
    using a_hi fl64_quot_bounds(2)[OF t s] by (rule order_trans)
  then have "?p \<le> of_int s * (of_int t / of_int s + of_int t / of_int s / 2 ^ 53)"
    using s0 by (intro mult_left_mono) simp_all
  also have "\<dots> = of_int t + of_int t / 2 ^ 53" using s0 by (simp add: field_simps)
  finally show p_hi: "?p \<le> of_int t + of_int t / 2 ^ 53" .
  have "of_int t / 2 ^ 53 \<le> (2::rat) ^ 20 / 2 ^ 53" using tr(2) by (rule divide_right_mono) simp
  then show "?p \<le> 2 ^ 20 + 2 ^ 20 / 2 ^ 53" using p_hi tr(2) by linarith
  show up: "fl64 ?p \<le> ?p + ?p / 2 ^ 53" using n by (rule fl64_upper)
  show lo: "?p - ?p / 2 ^ 53 \<le> fl64 ?p" using n by (rule fl64_lower)
  show p0: "0 \<le> ?p" using p_lo by (rule order_trans[rotated]) simp
  have "0 \<le> ?p * (1 - 1 / 2 ^ 53)" by (rule mult_nonneg_nonneg[OF p0]) simp
  also have "\<dots> = ?p - ?p / 2 ^ 53" by (simp add: right_diff_distrib)
  finally show "0 \<le> fl64 ?p" using lo by (rule order_trans)
qed

lemma scaled_bounds:
  assumes t: "size_ok t" and s: "size_ok s"
    and a_lo: "1 / 2 ^ 21 \<le> a" and a_hi: "a \<le> fl64 (of_int t / of_int s)"
  shows "0 \<le> py_int (fl64 (fl64 (of_int s) * a))"
    and "py_int (fl64 (fl64 (of_int s) * a)) \<le> t"
proof -
  let ?p = "of_int s * a :: rat"
  note pb = prod_bounds[OF t s a_lo a_hi] and tr = of_int_size_ok[OF t]
  define c :: rat where "c = 1 + 1 / 2 ^ 53"
  have c: "0 \<le> c" by (simp add: c_def)
  have pc: "x + x / 2 ^ 53 = x * c" for x :: rat unfolding c_def by (simp add: distrib_left)
  have "fl64 ?p \<le> ?p * c" using pb(4) unfolding pc .
  also have "\<dots> \<le> (of_int t * c) * c"
  proof (rule mult_right_mono[OF _ c])
    show "?p \<le> of_int t * c" using pb(2) unfolding pc .
  qed
  also have "\<dots> = of_int t + of_int t * (c * c - 1)"
    by (simp only: right_diff_distrib mult.assoc mult_1_right)
  also have "\<dots> \<le> of_int t + 2 ^ 20 * (c * c - 1)"
  proof (rule add_left_mono, rule mult_right_mono[OF tr(2)])
    show "0 \<le> c * c - 1" unfolding c_def by simp
  qed
  also have "\<dots> < of_int t + 1" unfolding c_def by simp
  finally have "fl64 ?p < of_int t + 1" .
  then have "\<lfloor>fl64 ?p\<rfloor> \<le> t" by (simp add: floor_le_iff)
  then show "py_int (fl64 (fl64 (of_int s) * a)) \<le> t"
    using pb(6) by (simp add: py_int_def fl64_size_ok[OF s])
  show "0 \<le> py_int (fl64 (fl64 (of_int s) * a))"
    using pb(6) by (simp add: py_int_def fl64_size_ok[OF s])
qed

lemma aspect_ratio_bounds:
  assumes "size_ok (cols img)" "size_ok (rows img)" "size_ok w" "size_ok h"
  shows "1 / 2 ^ 21 \<le> aspect_ratio img w h"
    and "aspect_ratio img w h \<le> fl64 (of_int w / of_int (cols img))"
    and "aspect_ratio img w h \<le> fl64 (of_int h / of_int (rows img))"
  using fl64_quot_bounds(1)[OF assms(3) assms(1)] fl64_quot_bounds(1)[OF assms(4) assms(2)]
  by (simp_all add: aspect_ratio_def)

lemma new_width_bounds:
  assumes "size_ok (cols img)" "size_ok (rows img)" "size_ok w" "size_ok h"
  shows "0 \<le> new_width img w h" and "new_width img w h \<le> w"
  unfolding new_width_def
  using scaled_bounds[OF assms(3) assms(1) aspect_ratio_bounds(1,2)[OF assms]] by blast+

lemma new_height_bounds:
  assumes "size_ok (cols img)" "size_ok (rows img)" "size_ok w" "size_ok h"
  shows "0 \<le> new_height img w h" and "new_height img w h \<le> h"
  unfolding new_height_def
  using scaled_bounds[OF assms(4) assms(2) aspect_ratio_bounds(1,3)[OF assms]] by blast+

lemma py_int_half:
  assumes "0 \<le> n" "n < 2 ^ 53"
  shows "py_int (fl64 (of_int n / 2)) = n div 2"
proof (cases "n = 0")
  case True
  then show ?thesis by (simp add: fl64_def py_int_def)
next
  case False
  then have "0 < n" using assms by simp
  then have eq: "fl64 (of_int n / 2) = of_int n / 2" using assms(2) by (rule fl64_half)
  have fl: "\<lfloor>(of_int n :: rat) / 2\<rfloor> = n div 2"
    using floor_divide_of_int_eq[of n 2, where ?'a = rat] by simp
  have "(0::rat) \<le> of_int n / 2" using assms(1) by simp
  then show ?thesis unfolding eq py_int_def fl by simp
qed

lemma padding_width_eq:
  assumes "size_ok (cols img)" "size_ok (rows img)" "size_ok w" "size_ok h"
  shows "padding_width img w h = (w - new_width img w h) div 2"
proof -
  have "0 \<le> w - new_width img w h" using new_width_bounds(2)[OF assms] by simp
  moreover have "w - new_width img w h < 2 ^ 53"
    using new_width_bounds(1)[OF assms] assms(3) by (simp add: size_ok_def)
  ultimately show ?thesis unfolding padding_width_def by (rule py_int_half)
qed

lemma padding_height_eq:
  assumes "size_ok (cols img)" "size_ok (rows img)" "size_ok w" "size_ok h"
  shows "padding_height img w h = (h - new_height img w h) div 2"
proof -
  have "0 \<le> h - new_height img w h" using new_height_bounds(2)[OF assms] by simp
  moreover have "h - new_height img w h < 2 ^ 53"
    using new_height_bounds(1)[OF assms] assms(4) by (simp add: size_ok_def)
  ultimately show ?thesis unfolding padding_height_def by (rule py_int_half)
qed

lemma resize_image_Some:
  assumes "size_ok (cols img)" "size_ok (rows img)" "size_ok w" "size_ok h"
  shows "resize_image interp (Some img) w h =
           (if new_width img w h < 1 \<or> new_height img w h < 1 then Inl CvError
            else cv2_copyMakeBorder
                   \<lparr>rows = new_height img w h, cols = new_width img w h,
                    px = interp img (new_width img w h) (new_height img w h)\<rparr>
                   (padding_height img w h) (padding_height img w h)
                   (padding_width img w h) (padding_width img w h))"
  using assms(1,2) by (auto simp: resize_image_def cv2_resize_def size_ok_def)

lemma padding_nonneg:
  assumes "size_ok (cols img)" "size_ok (rows img)" "size_ok w" "size_ok h"
  shows "0 \<le> padding_width img w h" and "0 \<le> padding_height img w h"
  using new_width_bounds(2)[OF assms] new_height_bounds(2)[OF assms]
  by (simp_all add: padding_width_eq[OF assms] padding_height_eq[OF assms])

lemma cross_bound:
  fixes S H x y A B :: rat and nw nh :: int
  assumes S: "0 \<le> S" and H: "0 \<le> H"
    and A: "A \<le> x + x / 2 ^ 53" and B: "y - y / 2 ^ 53 \<le> B"
    and z: "x * H = y * S" and zb: "x * H \<le> 2 ^ 41"
    and nw: "of_int nw \<le> A" and nh: "B < of_int nh + 1"
  shows "of_int nw * H - of_int nh * S < S + 1"
proof -
  define z where "z = x * H"
  have "of_int nw * H \<le> (x + x / 2 ^ 53) * H"
    by (rule mult_right_mono[OF order_trans[OF nw A] H])
  also have "\<dots> = z + z / 2 ^ 53" by (simp add: z_def distrib_right)
  finally have 1: "of_int nw * H \<le> z + z / 2 ^ 53" .
  have le: "(y - y / 2 ^ 53) * S \<le> (of_int nh + 1) * S"
    by (rule mult_right_mono[OF _ S]) (use B nh in linarith)
  have e1: "(y - y / 2 ^ 53) * S = z - z / 2 ^ 53"
    by (simp add: z_def z left_diff_distrib)
  have e2: "(of_int nh + 1) * S = of_int nh * S + S" by (simp add: distrib_right)
  have 2: "z - z / 2 ^ 53 \<le> of_int nh * S + S" using le unfolding e1 e2 .
  have 3: "z / 2 ^ 53 \<le> 2 ^ 41 / 2 ^ 53" using zb unfolding z_def by (rule divide_right_mono) simp
  have 4: "(2::rat) ^ 41 / 2 ^ 53 < 1 / 2" by simp
  show ?thesis using 1 2 3 4 by linarith
qed

lemma aspect_cross:
  assumes c: "size_ok (cols img)" and r: "size_ok (rows img)" and w: "size_ok w" and h: "size_ok h"
  shows "new_width img w h * rows img - new_height img w h * cols img \<le> cols img"
    and "new_height img w h * cols img - new_width img w h * rows img \<le> rows img"
proof -
  let ?a = "aspect_ratio img w h"
  let ?S = "of_int (cols img) :: rat" and ?H = "of_int (rows img) :: rat"
  let ?A = "fl64 (?S * ?a)" and ?B = "fl64 (?H * ?a)"
  note ab = aspect_ratio_bounds[OF c r w h]
  note pw = prod_bounds[OF w c ab(1,2)] and ph = prod_bounds[OF h r ab(1,3)]
  note Sr = of_int_size_ok[OF c] and Hr = of_int_size_ok[OF r]
  have S0: "0 \<le> ?S" and H0: "0 \<le> ?H" using Sr Hr by linarith+
  have nw: "new_width img w h = \<lfloor>?A\<rfloor>"
    using pw(6) by (simp add: new_width_def py_int_def fl64_size_ok[OF c])
  have nh: "new_height img w h = \<lfloor>?B\<rfloor>"
    using ph(6) by (simp add: new_height_def py_int_def fl64_size_ok[OF r])
  have nwA: "of_int (new_width img w h) \<le> ?A" "?A < of_int (new_width img w h) + 1"
    unfolding nw by linarith+
  have nhB: "of_int (new_height img w h) \<le> ?B" "?B < of_int (new_height img w h) + 1"
    unfolding nh by linarith+
  have sym: "?S * ?a * ?H = ?H * ?a * ?S" by simp
  have z1: "?S * ?a * ?H \<le> 2 ^ 41"
  proof -
    have "?S * ?a * ?H \<le> (2 ^ 20 + 2 ^ 20 / 2 ^ 53) * 2 ^ 20"
      by (rule mult_mono[OF pw(3) Hr(2) _ H0]) simp
    also have "\<dots> \<le> 2 ^ 41" by simp
    finally show ?thesis .
  qed
  have z2: "?H * ?a * ?S \<le> 2 ^ 41" using z1 by (simp add: mult.commute mult.left_commute)
  have "of_int (new_width img w h) * ?H - of_int (new_height img w h) * ?S < ?S + 1"
    by (rule cross_bound[OF S0 H0 pw(4) ph(5) sym z1 nwA(1) nhB(2)])
  then have "(of_int (new_width img w h * rows img - new_height img w h * cols img) :: rat)
               < of_int (cols img + 1)" by simp
  then have "new_width img w h * rows img - new_height img w h * cols img < cols img + 1"
    by (simp only: of_int_less_iff)
  then show "new_width img w h * rows img - new_height img w h * cols img \<le> cols img" by simp
  have "of_int (new_height img w h) * ?S - of_int (new_width img w h) * ?H < ?H + 1"
    by (rule cross_bound[OF H0 S0 ph(4) pw(5) sym[symmetric] z2 nhB(1) nwA(2)])
  then have "(of_int (new_height img w h * cols img - new_width img w h * rows img) :: rat)
               < of_int (rows img + 1)" by simp
  then have "new_height img w h * cols img - new_width img w h * rows img < rows img + 1"
    by (simp only: of_int_less_iff)
  then show "new_height img w h * cols img - new_width img w h * rows img \<le> rows img" by simp
qed

section \<open>The resize and pad step\<close>

text \<open>Evaluations of the arithmetic of \<open>resize_image\<close> at two images.\<close>

lemma dims_1000x563:
  "new_width \<lparr>rows = 563, cols = 1000, px = p\<rparr> 2560 1440 = 2557"
  "new_height \<lparr>rows = 563, cols = 1000, px = p\<rparr> 2560 1440 = 1440"
  "padding_width \<lparr>rows = 563, cols = 1000, px = p\<rparr> 2560 1440 = 1"
  "padding_height \<lparr>rows = 563, cols = 1000, px = p\<rparr> 2560 1440 = 0"
  by code_simp+

lemma dims_1x3000:
  "new_width \<lparr>rows = 3000, cols = 1, px = p\<rparr> 2560 1440 = 0"
  by code_simp

text \<open>
  Claim C1 says that every frame handed to the writer is exactly \<open>2560 \<times> 1440\<close>,
  whatever the size of the source image. The code does not achieve this: for a
  \<open>1000 \<times> 563\<close> image the scale is \<open>1440 / 563\<close>, the scaled width is 2557, the
  border is \<open>int(3 / 2) = 1\<close> pixel on each side, and the frame that
  \<open>resize_image(image, output_width, output_height)\<close> returns is \<open>2559 \<times> 1440\<close>.
\<close>

theorem frame_of_1000x563_is_2559_wide:
  "\<exists>frame. resize_image interp (Some \<lparr>rows = 563, cols = 1000, px = p\<rparr>) output_width output_height
             = Inr frame \<and> cols frame = 2559 \<and> rows frame = 1440"
  by (simp add: resize_image_def cv2_resize_def cv2_copyMakeBorder_def output_width_def
      output_height_def dims_1000x563)

text \<open>
  Claim C2, as amended: for an image and a target box with all four sizes between 1 and
  \<open>2\<^sup>2\<^sup>0\<close>, the scale is the smaller of the two quotients target / source (each
  rounded to binary64), each scaled size is the floor of the binary64 product of the
  source size and the scale, and the border on each side of an axis is
  \<open>(target - scaled) div 2\<close>. When both scaled sizes are at least one, the transform
  returns an image whose size on an axis is the target when \<open>target - scaled\<close> is even
  and one less when it is odd; when a scaled size is zero, \<open>cv2.resize\<close> rejects it and
  the transform raises.
\<close>

theorem resize_image_dimensions:
  assumes "size_ok (cols img)" "size_ok (rows img)" "size_ok tw" "size_ok th"
  shows "aspect_ratio img tw th
           = min (fl64 (of_int tw / of_int (cols img))) (fl64 (of_int th / of_int (rows img)))
       \<and> new_width img tw th = \<lfloor>fl64 (of_int (cols img) * aspect_ratio img tw th)\<rfloor>
       \<and> new_height img tw th = \<lfloor>fl64 (of_int (rows img) * aspect_ratio img tw th)\<rfloor>
       \<and> padding_width img tw th = (tw - new_width img tw th) div 2
       \<and> padding_height img tw th = (th - new_height img tw th) div 2
       \<and> (if 1 \<le> new_width img tw th \<and> 1 \<le> new_height img tw th
          then \<exists>out. resize_image interp (Some img) tw th = Inr out
                 \<and> cols out = (if even (tw - new_width img tw th) then tw else tw - 1)
                 \<and> rows out = (if even (th - new_height img tw th) then th else th - 1)
          else resize_image interp (Some img) tw th = Inl CvError)"
proof -
  note ab = aspect_ratio_bounds[OF assms]
  note pw = prod_bounds[OF assms(3) assms(1) ab(1,2)] and ph = prod_bounds[OF assms(4) assms(2) ab(1,3)]
  have nw: "new_width img tw th = \<lfloor>fl64 (of_int (cols img) * aspect_ratio img tw th)\<rfloor>"
    using pw(6) by (simp add: new_width_def py_int_def fl64_size_ok[OF assms(1)])
  have nh: "new_height img tw th = \<lfloor>fl64 (of_int (rows img) * aspect_ratio img tw th)\<rfloor>"
    using ph(6) by (simp add: new_height_def py_int_def fl64_size_ok[OF assms(2)])
  note pwe = padding_width_eq[OF assms] and phe = padding_height_eq[OF assms]
  note nwb = new_width_bounds[OF assms] and nhb = new_height_bounds[OF assms]
  have w2: "new_width img tw th + (tw - new_width img tw th) div 2 + (tw - new_width img tw th) div 2
              = (if even (tw - new_width img tw th) then tw else tw - 1)"
    by presburger
  have h2: "new_height img tw th + (th - new_height img tw th) div 2 + (th - new_height img tw th) div 2
              = (if even (th - new_height img tw th) then th else th - 1)"
    by presburger
  have pn: "0 \<le> (tw - new_width img tw th) div 2" "0 \<le> (th - new_height img tw th) div 2"
    using nwb(2) nhb(2) by simp_all
  have res: "if 1 \<le> new_width img tw th \<and> 1 \<le> new_height img tw th
          then \<exists>out. resize_image interp (Some img) tw th = Inr out
                 \<and> cols out = (if even (tw - new_width img tw th) then tw else tw - 1)
                 \<and> rows out = (if even (th - new_height img tw th) then th else th - 1)
          else resize_image interp (Some img) tw th = Inl CvError"
  proof (cases "1 \<le> new_width img tw th \<and> 1 \<le> new_height img tw th")
    case True
    then have "\<exists>out. resize_image interp (Some img) tw th = Inr out
                 \<and> cols out = new_width img tw th + (tw - new_width img tw th) div 2 + (tw - new_width img tw th) div 2
                 \<and> rows out = new_height img tw th + (th - new_height img tw th) div 2 + (th - new_height img tw th) div 2"
      using pn by (simp add: resize_image_Some[OF assms] cv2_copyMakeBorder_def pwe phe not_less)
    then show ?thesis using True unfolding w2 h2 by simp
  next
    case False
    then show ?thesis by (auto simp: resize_image_Some[OF assms])
  qed
  show ?thesis
    using nw nh pwe phe res by (simp only: aspect_ratio_def simp_thms)
qed

theorem resize_image_dimensions_witness:
  "size_ok (cols (gray_image 1000 563)) \<and> size_ok (rows (gray_image 1000 563))
     \<and> size_ok 2560 \<and> size_ok 1440
     \<and> padding_width (gray_image 1000 563) 2560 1440 = 1
     \<and> (\<exists>out. resize_image nearest (Some (gray_image 1000 563)) 2560 1440 = Inr out
            \<and> cols out = 2559 \<and> rows out = 1440)"
proof -
  have s: "size_ok (cols (gray_image 1000 563))" "size_ok (rows (gray_image 1000 563))"
    "size_ok 2560" "size_ok 1440"
    by (simp_all add: size_ok_def gray_image_def)
  show ?thesis
    using resize_image_dimensions[OF s, of nearest] s
    by (simp add: gray_image_def dims_1000x563)
qed

text \<open>
  The claim as stated, for every image of width and height at least one, fails at a
  \<open>1 \<times> 3000\<close> image: the scaled width is \<open>int(1 * 0.48) = 0\<close> and no frame is produced.
\<close>

theorem resize_image_1x3000_raises:
  "1 \<le> cols (gray_image 1 3000) \<and> 1 \<le> rows (gray_image 1 3000)
     \<and> resize_image nearest (Some (gray_image 1 3000)) 2560 1440 = Inl CvError"
  by (simp add: gray_image_def resize_image_def cv2_resize_def dims_1x3000)

text \<open>
  Claim C7: both scaled sizes are the truncations of the (binary64) products of the
  source sizes with one and the same scale factor, each scaled size is at most the
  target size on its axis, and the aspect ratio of the scaled region differs from the
  source's by the truncation only: the cross product \<open>new_width * rows - new_height * cols\<close>
  is at most the larger source side in absolute value.
\<close>

theorem scaled_region_aspect:
  assumes "size_ok (cols img)" "size_ok (rows img)" "size_ok tw" "size_ok th"
  shows "new_width img tw th = \<lfloor>fl64 (of_int (cols img) * aspect_ratio img tw th)\<rfloor>
       \<and> new_height img tw th = \<lfloor>fl64 (of_int (rows img) * aspect_ratio img tw th)\<rfloor>
       \<and> 0 \<le> new_width img tw th \<and> new_width img tw th \<le> tw
       \<and> 0 \<le> new_height img tw th \<and> new_height img tw th \<le> th
       \<and> \<bar>new_width img tw th * rows img - new_height img tw th * cols img\<bar>
            \<le> max (cols img) (rows img)"
proof -
  note ab = aspect_ratio_bounds[OF assms]
  note pw = prod_bounds[OF assms(3) assms(1) ab(1,2)] and ph = prod_bounds[OF assms(4) assms(2) ab(1,3)]
  have nw: "new_width img tw th = \<lfloor>fl64 (of_int (cols img) * aspect_ratio img tw th)\<rfloor>"
    using pw(6) by (simp add: new_width_def py_int_def fl64_size_ok[OF assms(1)])
  have nh: "new_height img tw th = \<lfloor>fl64 (of_int (rows img) * aspect_ratio img tw th)\<rfloor>"
    using ph(6) by (simp add: new_height_def py_int_def fl64_size_ok[OF assms(2)])
  have "\<bar>new_width img tw th * rows img - new_height img tw th * cols img\<bar>
            \<le> max (cols img) (rows img)"
    using aspect_cross[OF assms] by linarith
  then show ?thesis
    using nw nh new_width_bounds[OF assms] new_height_bounds[OF assms] by blast
qed

theorem scaled_region_aspect_witness:
  "size_ok (cols (gray_image 1000 563)) \<and> size_ok (rows (gray_image 1000 563))
     \<and> size_ok 2560 \<and> size_ok 1440
     \<and> new_width (gray_image 1000 563) 2560 1440 = 2557
     \<and> new_height (gray_image 1000 563) 2560 1440 = 1440
     \<and> \<bar>new_width (gray_image 1000 563) 2560 1440 * 563 - new_height (gray_image 1000 563) 2560 1440 * 1000\<bar>
          \<le> 1000"
proof -
  have s: "size_ok (cols (gray_image 1000 563))" "size_ok (rows (gray_image 1000 563))"
    "size_ok 2560" "size_ok 1440"
    by (simp_all add: size_ok_def gray_image_def)
  show ?thesis
    using scaled_region_aspect[OF s] s
    by (simp add: gray_image_def dims_1000x563)
qed

text \<open>
  Claim C8: the border that \<open>resize_image\<close> adds is the constant 0, and it is
  symmetric: \<open>padding_width\<close> columns on the left and on the right of the resized
  image, \<open>padding_height\<close> rows above and below it; inside, the frame is the resized
  image.
\<close>

theorem padding_constant_symmetric:
  assumes "resize_image interp (Some img) w h = Inr out"
  shows "cols out = padding_width img w h + new_width img w h + padding_width img w h
       \<and> rows out = padding_height img w h + new_height img w h + padding_height img w h
       \<and> (\<forall>r c. px out r c =
            (if padding_height img w h \<le> r \<and> r < padding_height img w h + new_height img w h
                \<and> padding_width img w h \<le> c \<and> c < padding_width img w h + new_width img w h
             then interp img (new_width img w h) (new_height img w h)
                    (r - padding_height img w h) (c - padding_width img w h)
             else 0))"
  using assms
  by (auto simp: resize_image_def cv2_resize_def cv2_copyMakeBorder_def split: if_splits)

theorem padding_constant_symmetric_witness:
  "\<exists>out. resize_image nearest (Some (gray_image 1000 563)) 2560 1440 = Inr out
      \<and> cols out = 1 + 2557 + 1 \<and> rows out = 0 + 1440 + 0
      \<and> px out 7 0 = 0 \<and> px out 7 1 = 128 \<and> px out 7 2557 = 128 \<and> px out 7 2558 = 0"
proof -
  obtain out where out: "resize_image nearest (Some (gray_image 1000 563)) 2560 1440 = Inr out"
    by (simp add: gray_image_def resize_image_def cv2_resize_def cv2_copyMakeBorder_def dims_1000x563)
  show ?thesis
    using padding_constant_symmetric[OF out] out
    by (simp add: gray_image_def dims_1000x563 nearest_def)
qed

section \<open>The run as a whole\<close>

lemma frames_written_append [simp]:
  "frames_written (xs @ ys) = frames_written xs @ frames_written ys"
  by (induction xs rule: frames_written.induct) simp_all

lemma files_read_append [simp]: "files_read (xs @ ys) = files_read xs @ files_read ys"
  by (induction xs rule: files_read.induct) simp_all

lemma releases_append [simp]: "releases (xs @ ys) = releases xs + releases ys"
  by (induction xs rule: releases.induct) simp_all

lemma write_frames_None:
  assumes "write_frames imread interp files = (evs, None)"
  shows "\<exists>frames. list_all2 (\<lambda>f frame. resize_image interp (imread f) output_width output_height = Inr frame) files frames
           \<and> evs = frame_events files frames"
  using assms
proof (induction files arbitrary: evs)
  case Nil
  then show ?case by simp
next
  case (Cons f files)
  from Cons.prems obtain frame evs' where
    fr: "resize_image interp (imread f) output_width output_height = Inr frame"
    and rest: "write_frames imread interp files = (evs', None)"
    and evs: "evs = Imread f # Write frame # evs'"
    by (auto split: sum.splits prod.splits)
  from Cons.IH[OF rest] obtain frames where
    "list_all2 (\<lambda>f frame. resize_image interp (imread f) output_width output_height = Inr frame) files frames"
    "evs' = frame_events files frames" by blast
  then show ?case using fr evs by (intro exI[of _ "frame # frames"]) simp
qed

lemma write_frames_ok:
  assumes "list_all2 (\<lambda>f frame. resize_image interp (imread f) output_width output_height = Inr frame) files frames"
  shows "write_frames imread interp files = (frame_events files frames, None)"
  using assms by (induction rule: list_all2_induct) simp_all

lemma frame_events_props:
  assumes "length files = length frames"
  shows "frames_written (frame_events files frames) = frames"
    and "files_read (frame_events files frames) = files"
    and "releases (frame_events files frames) = 0"
  using assms by (induction files frames rule: list_induct2) simp_all

lemma write_frames_general:
  assumes "write_frames imread interp files = (evs, r)"
  shows "releases evs = 0" and "set (files_read evs) \<subseteq> set files"
    and "length (frames_written evs) \<le> length files"
  using assms
proof (induction files arbitrary: evs r)
  case Nil
  { case 1 then show ?case by simp
  next case 2 then show ?case by simp
  next case 3 then show ?case by simp }
next
  case (Cons f files)
  { case 1 then show ?case using Cons.IH(1) by (auto split: sum.splits prod.splits)
  next case 2 then show ?case using Cons.IH(2) by (fastforce split: sum.splits prod.splits)
  next case 3 then show ?case using Cons.IH(3) by (fastforce split: sum.splits prod.splits) }
qed

lemma write_frames_Some:
  assumes "write_frames imread interp files = (evs, Some e)"
  shows "\<exists>g\<in>set files. resize_image interp (imread g) output_width output_height = Inl e"
  using assms
  by (induction files arbitrary: evs) (auto split: sum.splits prod.splits)

lemma write_frames_append:
  "write_frames imread interp (xs @ ys) =
     (case write_frames imread interp xs of
        (evs, Some e) \<Rightarrow> (evs, Some e)
      | (evs, None) \<Rightarrow> (case write_frames imread interp ys of (evs', r) \<Rightarrow> (evs @ evs', r)))"
  by (induction xs) (auto split: sum.splits prod.splits option.splits)

lemma resize_image_None: "resize_image interp None w h = Inl AttributeError"
  by (simp add: resize_image_def)

lemma run_no_files:
  assumes "get_image_files fs path = []"
  shows "create_video_from_images imread interp fs file_name path dest = ([], Some IndexError)"
  using assms by (simp add: create_video_from_images_def)

lemma get_image_files_absent:
  assumes "fs path = None \<or> fs path = Some Denied"
  shows "get_image_files fs path = []"
  using assms by (auto simp: get_image_files_def)

text \<open>A run completes when a file is discovered and every discovered file yields a frame.\<close>

lemma run_completes:
  assumes ne: "get_image_files fs path \<noteq> []"
    and fr: "list_all2 (\<lambda>f frame. resize_image interp (imread f) output_width output_height = Inr frame)
               (get_image_files fs path) frames"
  shows "create_video_from_images imread interp fs file_name path dest
           = (Imread (hd (get_image_files fs path))
                # Open (output_path file_name path dest) ''mp4v'' output_fps (output_width, output_height)
                # frame_events (get_image_files fs path) frames @ [Release], None)"
proof -
  obtain first rest where files: "get_image_files fs path = first # rest"
    using ne by (cases "get_image_files fs path") auto
  from fr files obtain frame where "resize_image interp (imread first) output_width output_height = Inr frame"
    by (auto simp: list_all2_Cons1)
  then obtain img where img: "imread first = Some img"
    by (cases "imread first") (simp_all add: resize_image_None)
  have wf: "write_frames imread interp (first # rest) = (frame_events (first # rest) frames, None)"
    using fr unfolding files by (rule write_frames_ok)
  show ?thesis
    unfolding create_video_from_images_def Let_def files using img wf by simp
qed

text \<open>Evaluations on the example tree.\<close>

lemma sample_files:
  "get_image_files sample_fs ''in'' = [''in/a.png'', ''in/z.jpeg'', ''in/sub/b.JPG'']"
  "get_image_files sample_fs ''empty'' = []"
  by code_simp+

lemma dims_800x600:
  "new_width \<lparr>rows = 600, cols = 800, px = p\<rparr> 2560 1440 = 1920"
  "new_height \<lparr>rows = 600, cols = 800, px = p\<rparr> 2560 1440 = 1440"
  "padding_width \<lparr>rows = 600, cols = 800, px = p\<rparr> 2560 1440 = 320"
  "padding_height \<lparr>rows = 600, cols = 800, px = p\<rparr> 2560 1440 = 0"
  by code_simp+

lemma dims_640x480:
  "new_width \<lparr>rows = 480, cols = 640, px = p\<rparr> 2560 1440 = 1920"
  "new_height \<lparr>rows = 480, cols = 640, px = p\<rparr> 2560 1440 = 1440"
  "padding_width \<lparr>rows = 480, cols = 640, px = p\<rparr> 2560 1440 = 320"
  "padding_height \<lparr>rows = 480, cols = 640, px = p\<rparr> 2560 1440 = 0"
  by code_simp+

lemma dims_1920x1080:
  "new_width \<lparr>rows = 1080, cols = 1920, px = p\<rparr> 2560 1440 = 2560"
  "new_height \<lparr>rows = 1080, cols = 1920, px = p\<rparr> 2560 1440 = 1440"
  "padding_width \<lparr>rows = 1080, cols = 1920, px = p\<rparr> 2560 1440 = 0"
  "padding_height \<lparr>rows = 1080, cols = 1920, px = p\<rparr> 2560 1440 = 0"
  by code_simp+

lemmas sample_eval =
  create_video_from_images_def sample_files sample_imread_def corrupt_imread_def gray_image_def
  resize_image_def cv2_resize_def cv2_copyMakeBorder_def output_width_def output_height_def
  dims_800x600 dims_640x480 dims_1920x1080

text \<open>
  What a completed run hands to the writer: every discovered file has been decoded and
  transformed into a frame, and the trace is the probe of the first file, the opening
  of the writer, then for each discovered file in discovery order its decoding followed
  by the writing of its frame, and last one release of the writer. Lemma
  \<open>run_completes\<close> is the converse: such a run exists whenever a file is discovered
  and every discovered file yields a frame.
\<close>

theorem video_frames_match_files:
  assumes "create_video_from_images imread interp fs file_name path dest = (trace, None)"
  shows "\<exists>frames.
           list_all2 (\<lambda>f frame. resize_image interp (imread f) output_width output_height = Inr frame)
             (get_image_files fs path) frames
         \<and> get_image_files fs path \<noteq> []
         \<and> trace = Imread (hd (get_image_files fs path))
                    # Open (output_path file_name path dest) ''mp4v'' output_fps (output_width, output_height)
                    # frame_events (get_image_files fs path) frames @ [Release]
         \<and> frames_written trace = frames
         \<and> length (frames_written trace) = length (get_image_files fs path)
         \<and> files_read trace = hd (get_image_files fs path) # get_image_files fs path
         \<and> releases trace = 1 \<and> last trace = Release"
proof -
  let ?files = "get_image_files fs path"
  from assms obtain first rest where files: "?files = first # rest"
    by (cases ?files) (simp_all add: create_video_from_images_def)
  from assms files obtain evs where
    wf: "write_frames imread interp ?files = (evs, None)"
    and tr: "trace = Imread first
               # Open (output_path file_name path dest) ''mp4v'' output_fps (output_width, output_height)
               # evs @ [Release]"
    by (auto simp: create_video_from_images_def Let_def split: option.splits prod.splits)
  from write_frames_None[OF wf] obtain frames where
    fr: "list_all2 (\<lambda>f frame. resize_image interp (imread f) output_width output_height = Inr frame) ?files frames"
    and evs: "evs = frame_events ?files frames" by blast
  have len: "length ?files = length frames" using fr by (rule list_all2_lengthD)
  note fe = frame_events_props[OF len]
  have "frames_written trace = frames" using fe(1) by (simp add: tr evs)
  moreover have "files_read trace = hd ?files # ?files" using fe(2) files by (simp add: tr evs)
  moreover have "releases trace = 1" using fe(3) by (simp add: tr evs)
  moreover have "last trace = Release" by (simp add: tr)
  moreover have "trace = Imread (hd ?files)
                    # Open (output_path file_name path dest) ''mp4v'' output_fps (output_width, output_height)
                    # frame_events ?files frames @ [Release]"
    using files by (simp add: tr evs)
  ultimately show ?thesis using fr len files by (intro exI[of _ frames]) simp
qed

theorem video_frames_match_files_witness:
  "\<exists>trace. create_video_from_images sample_imread nearest sample_fs None ''in'' None = (trace, None)
      \<and> length (frames_written trace) = 3
      \<and> files_read trace = [''in/a.png'', ''in/a.png'', ''in/z.jpeg'', ''in/sub/b.JPG'']
      \<and> releases trace = 1 \<and> last trace = Release"
proof -
  obtain trace where
    run: "create_video_from_images sample_imread nearest sample_fs None ''in'' None = (trace, None)"
    by (simp add: sample_eval)
  show ?thesis
    using video_frames_match_files[OF run] run by (auto simp: sample_files)
qed

lemma lone_files: "get_image_files lone_fs ''shots'' = [''shots/p.png'']"
  by code_simp

lemma encode_frame_events:
  assumes "length files = length frames"
  shows "encode (Some (w, h)) (frame_events files frames @ rest)
           = filter (\<lambda>frame. cols frame = w \<and> rows frame = h) frames @ encode (Some (w, h)) rest"
  using assms by (induction files frames rule: list_induct2) simp_all

lemma completed_run_video:
  assumes "create_video_from_images imread interp fs file_name path dest = (trace, None)"
  shows "video_frames trace
           = filter (\<lambda>frame. cols frame = output_width \<and> rows frame = output_height) (frames_written trace)"
proof -
  from video_frames_match_files[OF assms] obtain frames where
    fr: "list_all2 (\<lambda>f frame. resize_image interp (imread f) output_width output_height = Inr frame)
           (get_image_files fs path) frames"
    and tr: "trace = Imread (hd (get_image_files fs path))
                    # Open (output_path file_name path dest) ''mp4v'' output_fps (output_width, output_height)
                    # frame_events (get_image_files fs path) frames @ [Release]"
    and fw: "frames_written trace = frames" by blast
  have len: "length (get_image_files fs path) = length frames" using fr by (rule list_all2_lengthD)
  show ?thesis
    unfolding fw unfolding tr video_frames_def by (simp add: encode_frame_events[OF len])
qed

text \<open>
  Claim C3 says that the produced video holds exactly one frame per discovered file, in
  discovery order. The script does hand the writer one frame per file, in that order,
  and releases it once (\<open>video_frames_match_files\<close>), but a frame that
  \<open>resize_image\<close> returns one pixel short is not the size the writer was opened
  with, and the writer skips it. For a folder holding one \<open>1000 \<times> 563\<close> image the
  run completes, the one frame handed over is \<open>2559 \<times> 1440\<close>, and the video holds
  no frame at all.
\<close>

theorem lone_1000x563_video_has_no_frame:
  "get_image_files lone_fs ''shots'' = [''shots/p.png'']
     \<and> (\<exists>trace frame.
           create_video_from_images lone_imread nearest lone_fs None ''shots'' None = (trace, None)
         \<and> frames_written trace = [frame] \<and> cols frame = 2559 \<and> rows frame = 1440
         \<and> video_frames trace = [])"
  by (simp add: lone_files create_video_from_images_def lone_imread_def gray_image_def
      resize_image_def cv2_resize_def cv2_copyMakeBorder_def output_width_def output_height_def
      dims_1000x563 video_frames_def)

text \<open>
  Claim C5: when discovery finds no image file, the run ends with \<open>IndexError\<close> at
  \<open>image_files[0]\<close>; nothing has happened before it: no file is decoded and the
  writer is never opened, so no output file is created.
\<close>

theorem no_images_index_error:
  assumes "get_image_files fs path = []"
  shows "create_video_from_images imread interp fs file_name path dest = ([], Some IndexError)
       \<and> opens (fst (create_video_from_images imread interp fs file_name path dest)) = []"
  by (simp add: run_no_files[OF assms])

theorem no_images_index_error_witness:
  "get_image_files sample_fs ''empty'' = []
     \<and> create_video_from_images sample_imread nearest sample_fs None ''empty'' None = ([], Some IndexError)"
  using no_images_index_error[where fs = sample_fs and path = "''empty''" and imread = sample_imread
      and interp = nearest and file_name = None and dest = None, OF sample_files(2)]
  by (simp add: sample_files)

text \<open>
  Claim C9: when a discovered file fails to decode, and every file before it decodes,
  the run ends with an exception; the writer is not released; no file after the
  failing one is decoded and no frame beyond those of the files before it is written.
  The exception is the \<open>AttributeError\<close> of reading \<open>.shape\<close> of \<open>None\<close>, unless
  the transform of an earlier file has already raised.
\<close>

theorem decode_failure_aborts:
  assumes files: "get_image_files fs path = pre @ f # post"
    and f: "imread f = None"
    and pre: "\<forall>g\<in>set pre. imread g \<noteq> None"
  shows "\<exists>trace e. create_video_from_images imread interp fs file_name path dest = (trace, Some e)
          \<and> releases trace = 0
          \<and> set (files_read trace) \<subseteq> set (pre @ [f])
          \<and> length (frames_written trace) \<le> length pre
          \<and> (e = AttributeError
               \<or> (\<exists>g\<in>set pre. resize_image interp (imread g) output_width output_height = Inl e))"
proof (cases pre)
  case Nil
  then have "create_video_from_images imread interp fs file_name path dest
               = ([Imread f], Some AttributeError)"
    using files f by (simp add: create_video_from_images_def)
  then show ?thesis using Nil by simp
next
  case (Cons first rest)
  obtain img where img: "imread first = Some img" using pre Cons by auto
  obtain evs r where wpre: "write_frames imread interp pre = (evs, r)"
    by (cases "write_frames imread interp pre")
  note g = write_frames_general[OF wpre]
  let ?open = "Open (output_path file_name path dest) ''mp4v'' output_fps (output_width, output_height)"
  show ?thesis
  proof (cases r)
    case None
    have "write_frames imread interp (pre @ f # post) = (evs @ [Imread f], Some AttributeError)"
      by (simp add: write_frames_append wpre None f resize_image_None)
    then have "create_video_from_images imread interp fs file_name path dest
                 = (Imread first # ?open # evs @ [Imread f], Some AttributeError)"
      using files Cons img by (simp add: create_video_from_images_def)
    then show ?thesis using g Cons by auto
  next
    case (Some e)
    have "write_frames imread interp (pre @ f # post) = (evs, Some e)"
      by (simp add: write_frames_append wpre Some)
    then have "create_video_from_images imread interp fs file_name path dest
                 = (Imread first # ?open # evs, Some e)"
      using files Cons img by (simp add: create_video_from_images_def)
    moreover have "\<exists>g\<in>set pre. resize_image interp (imread g) output_width output_height = Inl e"
      using wpre Some by (auto dest: write_frames_Some)
    ultimately show ?thesis using g Cons by auto
  qed
qed

theorem decode_failure_aborts_witness:
  "\<exists>trace e. create_video_from_images corrupt_imread nearest sample_fs None ''in'' None = (trace, Some e)
      \<and> releases trace = 0
      \<and> set (files_read trace) \<subseteq> {''in/a.png'', ''in/z.jpeg''}
      \<and> length (frames_written trace) \<le> 1"
proof -
  have files: "get_image_files sample_fs ''in'' = [''in/a.png''] @ ''in/z.jpeg'' # [''in/sub/b.JPG'']"
    by (simp add: sample_files)
  have f: "corrupt_imread ''in/z.jpeg'' = None" by (simp add: corrupt_imread_def)
  have pre: "\<forall>g\<in>set [''in/a.png'']. corrupt_imread g \<noteq> None"
    by (simp add: corrupt_imread_def sample_imread_def)
  show ?thesis
    using decode_failure_aborts[where interp = nearest and file_name = None and dest = None,
        OF files f pre] by auto
qed

text \<open>
  Claim C10: for a path that does not exist or cannot be listed, discovery returns the
  empty list without raising, and the run ends with the \<open>IndexError\<close> of an empty
  folder: its outcome is that of the same run on an empty directory.
\<close>

theorem missing_path_index_error:
  assumes "fs path = None \<or> fs path = Some Denied"
  shows "get_image_files fs path = []
       \<and> create_video_from_images imread interp fs file_name path dest = ([], Some IndexError)
       \<and> create_video_from_images imread interp fs file_name path dest
           = create_video_from_images imread interp (fs(path := Some (Dir []))) file_name path dest"
proof -
  have a: "get_image_files fs path = []" using assms by (rule get_image_files_absent)
  have b: "get_image_files (fs(path := Some (Dir []))) path = []"
    by (simp add: get_image_files_def dir_names_def file_names_def)
  show ?thesis using a by (simp add: run_no_files[OF a] run_no_files[OF b])
qed

theorem missing_path_index_error_witness:
  "sample_fs ''nowhere'' = None \<and> sample_fs ''locked'' = Some Denied
     \<and> create_video_from_images sample_imread nearest sample_fs None ''nowhere'' None = ([], Some IndexError)
     \<and> create_video_from_images sample_imread nearest sample_fs None ''locked'' None = ([], Some IndexError)"
proof -
  have a: "sample_fs ''nowhere'' = None" and b: "sample_fs ''locked'' = Some Denied"
    by (simp_all add: sample_fs_def)
  have a': "sample_fs ''nowhere'' = None \<or> sample_fs ''nowhere'' = Some Denied" using a by simp
  have b': "sample_fs ''locked'' = None \<or> sample_fs ''locked'' = Some Denied" using b by simp
  show ?thesis
    using missing_path_index_error[where fs = sample_fs and path = "''nowhere''"
        and imread = sample_imread and interp = nearest and file_name = None and dest = None, OF a']
      missing_path_index_error[where fs = sample_fs and path = "''locked''"
        and imread = sample_imread and interp = nearest and file_name = None and dest = None, OF b'] a b
    by simp
qed

section \<open>The output path\<close>








section \<open>Discovery\<close>

inductive_simps has_file_File [simp]: "has_file (File c) ds n"
inductive_simps has_file_Denied [simp]: "has_file Denied ds n"
inductive_simps has_file_Dir_Nil: "has_file (Dir es) [] n"
inductive_simps has_file_Dir_Cons: "has_file (Dir es) (d # ds) n"

lemma lower_char_dot: "lower_char c = CHR ''.'' \<longleftrightarrow> c = CHR ''.''"
proof
  assume a: "lower_char c = CHR ''.''"
  show "c = CHR ''.''"
  proof (cases "65 \<le> (of_char c :: nat) \<and> (of_char c :: nat) \<le> 90")
    case True
    then have "char_of (of_char c + 32 :: nat) = CHR ''.''"
      using a by (simp add: lower_char_def Let_def)
    then have "(of_char (char_of (of_char c + 32 :: nat) :: char) :: nat) = of_char CHR ''.''"
      by simp
    then have m: "(of_char c + 32 :: nat) mod 256 = 46" by (simp add: of_char_of)
    have "(of_char c + 32 :: nat) < 256" using True by linarith
    then have "(of_char c + 32 :: nat) mod 256 = of_char c + 32" by (rule mod_less)
    then have "(of_char c + 32 :: nat) = 46" using m by simp
    then show ?thesis using True by linarith
  next
    case False
    have "lower_char c = c" unfolding lower_char_def Let_def by (rule if_not_P[OF False])
    then show ?thesis using a by simp
  qed
next
  assume "c = CHR ''.''"
  then show "lower_char c = CHR ''.''" by (simp add: lower_char_def)
qed

lemma endswith_iff: "endswith s suf \<longleftrightarrow> (\<exists>pre. s = pre @ suf)"
proof
  assume "endswith s suf"
  then have "s = take (length s - length suf) s @ suf"
    unfolding endswith_def by (metis append_take_drop_id)
  then show "\<exists>pre. s = pre @ suf" ..
next
  assume "\<exists>pre. s = pre @ suf"
  then show "endswith s suf" by (auto simp: endswith_def)
qed

lemma takeWhile_last_dot:
  assumes "CHR ''.'' \<notin> set b"
  shows "rev (takeWhile (\<lambda>c. c \<noteq> CHR ''.'') (rev (a @ CHR ''.'' # b))) = b"
proof -
  have "takeWhile (\<lambda>c. c \<noteq> CHR ''.'') (rev b @ CHR ''.'' # rev a) = rev b"
    using assms by (auto simp: takeWhile_tail)
  then show ?thesis by simp
qed

lemma extension_split:
  assumes "CHR ''.'' \<notin> set b"
  shows "extension (a @ CHR ''.'' # b) = Some b"
  using takeWhile_last_dot[OF assms, of a] by (simp add: extension_def)

lemma endswith_extension:
  assumes e: "CHR ''.'' \<notin> set e"
  shows "endswith (lower n) (CHR ''.'' # e) \<longleftrightarrow> (\<exists>x. extension n = Some x \<and> lower x = e)"
proof
  assume "endswith (lower n) (CHR ''.'' # e)"
  then obtain pre where "map lower_char n = pre @ CHR ''.'' # e"
    by (auto simp: endswith_iff lower_def)
  then obtain a t where n: "n = a @ t" and t: "map lower_char t = CHR ''.'' # e"
    by (auto simp: map_eq_append_conv)
  from t obtain c b where tc: "t = c # b" and c: "lower_char c = CHR ''.''" and b: "map lower_char b = e"
    by (auto simp: map_eq_Cons_conv)
  have c': "c = CHR ''.''" using c by (simp add: lower_char_dot)
  have "CHR ''.'' \<notin> set b"
  proof
    assume "CHR ''.'' \<in> set b"
    then have "lower_char CHR ''.'' \<in> lower_char ` set b" by (rule imageI)
    then have "lower_char CHR ''.'' \<in> set (map lower_char b)" by (simp only: set_map)
    then show False using e b by (simp add: lower_char_def)
  qed
  then have "extension n = Some b" unfolding n tc c' by (rule extension_split)
  then show "\<exists>x. extension n = Some x \<and> lower x = e" using b by (simp add: lower_def)
next
  assume "\<exists>x. extension n = Some x \<and> lower x = e"
  then obtain x where x: "extension n = Some x" and lx: "lower x = e" by blast
  from x have "CHR ''.'' \<in> set n" by (simp add: extension_def split: if_splits)
  then obtain a b where n: "n = a @ CHR ''.'' # b" and nb: "CHR ''.'' \<notin> set b"
    by (auto dest: split_list_last)
  have "x = b" using x extension_split[OF nb, of a] by (simp add: n)
  then have "lower n = lower a @ CHR ''.'' # e"
    using lx by (simp add: n lower_def lower_char_def)
  then show "endswith (lower n) (CHR ''.'' # e)" by (auto simp: endswith_iff)
qed

lemma is_image_name_iff: "is_image_name n \<longleftrightarrow> has_image_extension n"
proof -
  have d: "CHR ''.'' \<notin> set ''png''" "CHR ''.'' \<notin> set ''jpg''"
    "CHR ''.'' \<notin> set ''jpeg''" "CHR ''.'' \<notin> set ''gif''" by simp_all
  have "is_image_name n \<longleftrightarrow>
          endswith (lower n) (CHR ''.'' # ''png'') \<or> endswith (lower n) (CHR ''.'' # ''jpg'')
        \<or> endswith (lower n) (CHR ''.'' # ''jpeg'') \<or> endswith (lower n) (CHR ''.'' # ''gif'')"
    by (simp add: is_image_name_def image_suffixes_def)
  also have "\<dots> \<longleftrightarrow> (\<exists>x. extension n = Some x \<and> lower x = ''png'')
        \<or> (\<exists>x. extension n = Some x \<and> lower x = ''jpg'')
        \<or> (\<exists>x. extension n = Some x \<and> lower x = ''jpeg'')
        \<or> (\<exists>x. extension n = Some x \<and> lower x = ''gif'')"
    unfolding endswith_extension[OF d(1)] endswith_extension[OF d(2)]
      endswith_extension[OF d(3)] endswith_extension[OF d(4)] ..
  also have "\<dots> \<longleftrightarrow> has_image_extension n"
    unfolding has_image_extension_def by (cases "extension n") auto
  finally show ?thesis .
qed

lemma file_names_iff: "n \<in> set (file_names es) \<longleftrightarrow> (\<exists>c. (n, File c) \<in> set es)"
proof
  assume "n \<in> set (file_names es)"
  then obtain node where "(n, node) \<in> set es" "\<not> is_dir node"
    by (auto simp: file_names_def)
  then show "\<exists>c. (n, File c) \<in> set es" by (cases node) auto
next
  assume "\<exists>c. (n, File c) \<in> set es"
  then show "n \<in> set (file_names es)" by (force simp: file_names_def)
qed

lemma found_Nil [simp]: "found [] = {}"
  by (simp add: found_def)

lemma found_Cons [simp]:
  "found ((dirpath, dirs, files) # w) = path_join dirpath ` {n \<in> set files. is_image_name n} \<union> found w"
  by (auto simp: found_def)

lemma found_append [simp]: "found (a @ b) = found a \<union> found b"
  by (auto simp: found_def)

lemma walk_found:
  fixes node :: "'c fs_node" and es :: "(string \<times> 'c fs_node) list"
  shows "p \<in> found (os_walk dirpath node) \<longleftrightarrow>
     (\<exists>ds n. has_file node ds n \<and> is_image_name n \<and> p = foldl path_join dirpath (ds @ [n]))"
    and "p \<in> found (os_walk_dirs dirpath es) \<longleftrightarrow>
     (\<exists>d sub ds n. (d, sub) \<in> set es \<and> has_file sub ds n \<and> is_image_name n
        \<and> p = foldl path_join (path_join dirpath d) (ds @ [n]))"
proof (induction dirpath node and dirpath es rule: os_walk_os_walk_dirs.induct)
  case (1 dirpath c)
  show ?case by simp
next
  case (2 dirpath)
  show ?case by simp
next
  case (3 dirpath es)
  have "(\<exists>ds n. has_file (Dir es) ds n \<and> is_image_name n \<and> p = foldl path_join dirpath (ds @ [n]))
      \<longleftrightarrow> (\<exists>n. has_file (Dir es) [] n \<and> is_image_name n \<and> p = path_join dirpath n)
        \<or> (\<exists>d ds n. has_file (Dir es) (d # ds) n \<and> is_image_name n
              \<and> p = foldl path_join (path_join dirpath d) (ds @ [n]))"
    (is "?L \<longleftrightarrow> ?A \<or> ?B")
  proof
    assume ?L
    then obtain ds n where h: "has_file (Dir es) ds n" "is_image_name n"
      "p = foldl path_join dirpath (ds @ [n])" by blast
    show "?A \<or> ?B"
    proof (cases ds)
      case Nil
      then show ?thesis using h by auto
    next
      case (Cons d ds')
      then have "?B" using h by auto
      then show ?thesis ..
    qed
  next
    assume "?A \<or> ?B"
    then show ?L
    proof
      assume ?A
      then obtain n where "has_file (Dir es) [] n" "is_image_name n" "p = path_join dirpath n" by blast
      then have "has_file (Dir es) [] n \<and> is_image_name n \<and> p = foldl path_join dirpath ([] @ [n])"
        by simp
      then show ?L by blast
    next
      assume ?B
      then obtain d ds n where "has_file (Dir es) (d # ds) n" "is_image_name n"
        "p = foldl path_join (path_join dirpath d) (ds @ [n])" by blast
      then have "has_file (Dir es) (d # ds) n \<and> is_image_name n
                   \<and> p = foldl path_join dirpath ((d # ds) @ [n])" by simp
      then show ?L by blast
    qed
  qed
  moreover have "?A \<longleftrightarrow> p \<in> path_join dirpath ` {n \<in> set (file_names es). is_image_name n}"
    by (auto simp: has_file_Dir_Nil file_names_iff)
  moreover have "?B \<longleftrightarrow> p \<in> found (os_walk_dirs dirpath es)"
    unfolding 3 by (auto simp: has_file_Dir_Cons)
  ultimately show ?case by simp
next
  case (4 dirpath)
  show ?case by simp
next
  case (5 dirpath e es)
  obtain d sub where e: "e = (d, sub)" by (cases e)
  have here: "p \<in> found (if is_dir sub then os_walk (path_join dirpath d) sub else [])
                \<longleftrightarrow> (\<exists>ds n. has_file sub ds n \<and> is_image_name n
                      \<and> p = foldl path_join (path_join dirpath d) (ds @ [n]))"
  proof (cases "is_dir sub")
    case True
    then show ?thesis using 5(1) by (simp add: e)
  next
    case False
    then obtain c where "sub = File c" by (cases sub) auto
    then show ?thesis by simp
  qed
  have split: "(\<exists>d' sub' ds n. (d', sub') \<in> set ((d, sub) # es) \<and> R d' sub' ds n)
                 \<longleftrightarrow> (\<exists>ds n. R d sub ds n) \<or> (\<exists>d' sub' ds n. (d', sub') \<in> set es \<and> R d' sub' ds n)"
    for R :: "string \<Rightarrow> 'c fs_node \<Rightarrow> string list \<Rightarrow> string \<Rightarrow> bool"
    by (simp only: set_simps insert_iff prod.inject) blast
  show ?case
    unfolding os_walk_dirs.simps found_append Un_iff e fst_conv snd_conv here 5(2)
    by (rule split[symmetric])
qed

lemma tree_has_b:
  "has_file (Dir [(''a.png'', File ()), (''notes.txt'', File ()),
                  (''sub'', Dir [(''b.JPG'', File ()), (''c.gif.bak'', File ())]),
                  (''locked'', Denied), (''z.jpeg'', File ())]) [''sub''] ''b.JPG''"
  by (rule has_file.below[where sub = "Dir [(''b.JPG'', File ()), (''c.gif.bak'', File ())]"])
     (simp, rule has_file.here[where c = "()"], simp)

lemma ext_examples:
  "has_image_extension ''b.JPG''" "\<not> has_image_extension ''c.gif.bak''"
  "\<not> has_image_extension ''notes.txt''" "\<not> has_image_extension ''png''"
  by code_simp+

text \<open>
  Claim C4: a path is returned by \<open>get_image_files\<close> exactly when it is the full path
  (the root path joined with the directory names and the file name) of a regular file
  that lies under the root, in the root directory itself or in any directory below it,
  and whose extension, lowered, is one of \<open>png\<close>, \<open>jpg\<close>, \<open>jpeg\<close>, \<open>gif\<close>. The content
  of the file plays no part: the characterisation holds for every content.
\<close>

theorem discovery_exact:
  "p \<in> set (get_image_files fs path) \<longleftrightarrow>
     (\<exists>node ds n. fs path = Some node \<and> has_file node ds n \<and> has_image_extension n
        \<and> p = foldl path_join path (ds @ [n]))"
proof (cases "fs path")
  case None
  then show ?thesis by (simp add: get_image_files_def)
next
  case (Some node)
  have "set (get_image_files fs path) = found (os_walk path node)"
    by (simp add: get_image_files_def Some found_def)
  then show ?thesis
    by (simp add: Some walk_found(1) is_image_name_iff)
qed

theorem discovery_exact_witness:
  "(\<exists>node. sample_fs ''in'' = Some node \<and> has_file node [''sub''] ''b.JPG'')
     \<and> has_image_extension ''b.JPG''
     \<and> ''in/sub/b.JPG'' \<in> set (get_image_files sample_fs ''in'')
     \<and> ''in/sub/c.gif.bak'' \<notin> set (get_image_files sample_fs ''in'')
     \<and> ''in/notes.txt'' \<notin> set (get_image_files sample_fs ''in'')"
proof -
  let ?tree = "Dir [(''a.png'', File ()), (''notes.txt'', File ()),
                  (''sub'', Dir [(''b.JPG'', File ()), (''c.gif.bak'', File ())]),
                  (''locked'', Denied), (''z.jpeg'', File ())]"
  have fs: "sample_fs ''in'' = Some ?tree" by (simp add: sample_fs_def)
  have p: "''in/sub/b.JPG'' = foldl path_join ''in'' ([''sub''] @ [''b.JPG''])"
    by (simp add: path_join_def)
  have "\<exists>node ds n. sample_fs ''in'' = Some node \<and> has_file node ds n \<and> has_image_extension n
          \<and> ''in/sub/b.JPG'' = foldl path_join ''in'' (ds @ [n])"
    using fs tree_has_b ext_examples(1) p by blast
  then have pos: "''in/sub/b.JPG'' \<in> set (get_image_files sample_fs ''in'')"
    by (rule discovery_exact[THEN iffD2])
  have neg: "''in/sub/c.gif.bak'' \<notin> set (get_image_files sample_fs ''in'')"
    "''in/notes.txt'' \<notin> set (get_image_files sample_fs ''in'')"
    by (simp_all add: sample_files)
  show ?thesis
    using fs tree_has_b ext_examples(1) pos neg by blast
qed

end
